theory Spec2Isabelle
  imports Main "HOL-Library.Sublist" "HOL-Library.Multiset" "HOL-Library.Word"
begin

section \<open>The list screen (HomeScreen): data\<close>

text \<open>
  A text that the screen lower-cases and searches (a title, a description, the search
  text) is a JavaScript string: a sequence of UTF-16 code units. Identifiers, dates and
  URLs, which the screen only copies, joins and hands on, stay of type \<open>string\<close>.
\<close>

type_synonym code_unit = "16 word"

type_synonym js_string = "code_unit list"

text \<open>
  The \<^verbatim>\<open>Task\<close> interface of the list screen. The optional fields
  \<^verbatim>\<open>description?\<close> and \<^verbatim>\<open>dueDate?\<close> are options: \<open>None\<close> stands for
  \<^verbatim>\<open>undefined\<close> (or \<^verbatim>\<open>null\<close>, which optional chaining treats alike). The field
  \<^verbatim>\<open>id\<close> is named \<open>task_id\<close>, since \<open>id\<close> is the identity function of HOL.
\<close>

record Task =
  task_id :: string
  title :: js_string
  description :: "js_string option"
  dueDate :: "string option"
  isCompleted :: bool
  createdAt :: string

section \<open>Strings\<close>

text \<open>
  \<^verbatim>\<open>s.includes(q)\<close>: \<open>q\<close> occurs in \<open>s\<close> as a contiguous run of code units,
  starting at some position of \<open>s\<close> (the empty string occurs everywhere).
\<close>

fun str_includes :: "js_string \<Rightarrow> js_string \<Rightarrow> bool" where
  "str_includes [] q = (q = [])"
| "str_includes (c # cs) q = (prefix q (c # cs) \<or> str_includes cs q)"

text \<open>
  \<^verbatim>\<open>String.prototype.toLowerCase\<close> is the engine's: it follows the case tables of
  Unicode, and it is not a map on single code units (U+0130 becomes the two code units
  U+0069 U+0307, and what a capital sigma becomes depends on its neighbours). The
  functions below take it as the parameter \<open>toLowerCase\<close>.

  For the part of Unicode up to U+017F (Basic Latin, Latin-1 Supplement, Latin
  Extended-A) the tables are written out. \<open>lower_nat\<close> is the small letter of a code
  point that is a capital with one small letter, and the code point itself otherwise;
  \<open>latin_toLowerCase\<close> lower-cases a text by it, with the two code units for U+0130.
  For a text whose code units are all in that part of Unicode it is what the engine
  returns. It is not the model of \<^verbatim>\<open>toLowerCase\<close>, which stays a parameter: it is the
  table that the parameter is compared with, and its instance in the examples.
\<close>

definition lower_nat :: "nat \<Rightarrow> nat" where
  "lower_nat n =
     (if (0x41 \<le> n \<and> n \<le> 0x5A) \<or> (0xC0 \<le> n \<and> n \<le> 0xDE \<and> n \<noteq> 0xD7) then n + 0x20
      else if ((0x100 \<le> n \<and> n \<le> 0x12F) \<or> (0x132 \<le> n \<and> n \<le> 0x137) \<or>
               (0x14A \<le> n \<and> n \<le> 0x177)) \<and> even n then n + 1
      else if ((0x139 \<le> n \<and> n \<le> 0x148) \<or> (0x179 \<le> n \<and> n \<le> 0x17E)) \<and> odd n
        then n + 1
      else if n = 0x178 then 0xFF
      else n)"

definition lower_unit :: "code_unit \<Rightarrow> code_unit" where
  "lower_unit u = of_nat (lower_nat (unat u))"

definition lower_units :: "code_unit \<Rightarrow> js_string" where
  "lower_units u = (if u = 0x130 then [0x69, 0x307] else [lower_unit u])"

definition latin_toLowerCase :: "js_string \<Rightarrow> js_string" where
  "latin_toLowerCase s = concat (map lower_units s)"

text \<open>
  Containment up to case, stated without lower-casing anything. \<open>capital_small C c\<close>
  says that \<open>C\<close> is a capital letter and \<open>c\<close> its small letter: A..Z and the
  accented capitals of Latin-1 have their small letter 32 places on; in Latin
  Extended-A a capital, at an even or at an odd place according to its block, is
  followed by its small letter; the capital U+0178 has the small letter U+00FF. Two
  code units are the same letter when they are equal or one is the capital of the
  other. A text contains a query up to case when, at some position of the text, the
  code units of the query stand one after the other, each as the same letter.
\<close>

definition capital_small :: "nat \<Rightarrow> nat \<Rightarrow> bool" where
  "capital_small C c =
     ((c = C + 0x20 \<and>
         (0x41 \<le> C \<and> C \<le> 0x5A \<or> 0xC0 \<le> C \<and> C \<le> 0xD6 \<or> 0xD8 \<le> C \<and> C \<le> 0xDE)) \<or>
      (c = C + 1 \<and> even C \<and>
         (0x100 \<le> C \<and> C \<le> 0x12E \<or> 0x132 \<le> C \<and> C \<le> 0x136 \<or> 0x14A \<le> C \<and> C \<le> 0x176)) \<or>
      (c = C + 1 \<and> odd C \<and> (0x139 \<le> C \<and> C \<le> 0x147 \<or> 0x179 \<le> C \<and> C \<le> 0x17D)) \<or>
      (C = 0x178 \<and> c = 0xFF))"

definition same_letter :: "code_unit \<Rightarrow> code_unit \<Rightarrow> bool" where
  "same_letter c d =
     (c = d \<or> capital_small (unat c) (unat d) \<or> capital_small (unat d) (unat c))"

fun prefix_up_to_case :: "js_string \<Rightarrow> js_string \<Rightarrow> bool" where
  "prefix_up_to_case [] s = True"
| "prefix_up_to_case (c # q) [] = False"
| "prefix_up_to_case (c # q) (d # s) = (same_letter c d \<and> prefix_up_to_case q s)"

fun contains_up_to_case :: "js_string \<Rightarrow> js_string \<Rightarrow> bool" where
  "contains_up_to_case [] q = (q = [])"
| "contains_up_to_case (d # s) q =
     (prefix_up_to_case q (d # s) \<or> contains_up_to_case s q)"

section \<open>Filtering and sorting the fetched list\<close>

text \<open>
  The predicate given to \<^verbatim>\<open>tasks.filter\<close>:
  \<^verbatim>\<open>task.title.toLowerCase().includes(searchQuery.toLowerCase()) ||
  (task.description?.toLowerCase().includes(searchQuery.toLowerCase()))\<close>.
  With no description the optional chain is \<^verbatim>\<open>undefined\<close>, which is falsy.
\<close>

definition matchesQuery :: "(js_string \<Rightarrow> js_string) \<Rightarrow> js_string \<Rightarrow> Task \<Rightarrow> bool" where
  "matchesQuery toLowerCase q task =
     (str_includes (toLowerCase (title task)) (toLowerCase q) \<or>
      (case description task of
         None \<Rightarrow> False
       | Some d \<Rightarrow> str_includes (toLowerCase d) (toLowerCase q)))"

text \<open>
  The comparator given to \<^verbatim>\<open>sort\<close>. Its result is a JavaScript number: \<open>None\<close> is
  \<^verbatim>\<open>NaN\<close>. The parameter \<open>getTime\<close> stands for
  \<^verbatim>\<open>s \<mapsto> new Date(s).getTime()\<close>, which is a whole number of milliseconds, or
  \<^verbatim>\<open>NaN\<close> when the string is not a date the engine can parse; a difference with
  \<^verbatim>\<open>NaN\<close> is \<^verbatim>\<open>NaN\<close>. (The difference of two time values has the sign of the
  exact difference, which is all that \<^verbatim>\<open>sort\<close> reads.)
\<close>

definition compareTasks :: "(string \<Rightarrow> int option) \<Rightarrow> Task \<Rightarrow> Task \<Rightarrow> int option" where
  "compareTasks getTime a b =
     (if isCompleted a \<noteq> isCompleted b
      then Some (if isCompleted a then 1 else - 1)
      else (case (getTime (createdAt a), getTime (createdAt b)) of
              (Some ta, Some tb) \<Rightarrow> Some (ta - tb)
            | _ \<Rightarrow> None))"

text \<open>
  \<^verbatim>\<open>Array.prototype.sort(comparefn)\<close>. The language's \<^verbatim>\<open>SortCompare\<close> calls the
  comparator and reads \<^verbatim>\<open>NaN\<close> as \<open>+0\<close>, and the sort is stable. It is modelled as
  the stable insertion sort: an element goes before the first element that it does not
  come after.

  When the comparator never gives \<^verbatim>\<open>NaN\<close> on the elements and compares them as a
  total preorder does, one arrangement only is sorted and keeps ties in their order;
  every engine returns it, and it is the result of \<open>array_sort\<close> (see
  \<open>sorted_wrt_array_sort\<close> and \<open>array_sort_stable\<close> below). When the comparator
  gives \<^verbatim>\<open>NaN\<close> for some pair, the language leaves the order to the engine:
  \<open>array_sort\<close> then returns the order of this insertion sort, and an engine may
  return another. What is proved below for every input uses the elements of the
  result only, or a comparator of the first kind.
\<close>

definition sortCompare :: "('a \<Rightarrow> 'a \<Rightarrow> int option) \<Rightarrow> 'a \<Rightarrow> 'a \<Rightarrow> int" where
  "sortCompare comparefn x y = (case comparefn x y of None \<Rightarrow> 0 | Some v \<Rightarrow> v)"

fun insert_sorted :: "('a \<Rightarrow> 'a \<Rightarrow> int option) \<Rightarrow> 'a \<Rightarrow> 'a list \<Rightarrow> 'a list" where
  "insert_sorted comparefn x [] = [x]"
| "insert_sorted comparefn x (y # ys) =
     (if sortCompare comparefn x y \<le> 0 then x # y # ys
      else y # insert_sorted comparefn x ys)"

fun array_sort :: "('a \<Rightarrow> 'a \<Rightarrow> int option) \<Rightarrow> 'a list \<Rightarrow> 'a list" where
  "array_sort comparefn [] = []"
| "array_sort comparefn (x # xs) = insert_sorted comparefn x (array_sort comparefn xs)"

definition filteredTasks ::
  "(js_string \<Rightarrow> js_string) \<Rightarrow> (string \<Rightarrow> int option) \<Rightarrow> Task list \<Rightarrow> js_string \<Rightarrow> Task list" where
  "filteredTasks toLowerCase getTime ts q =
     array_sort (compareTasks getTime) (filter (matchesQuery toLowerCase q) ts)"

text \<open>
  What the comments of the comparator promise, as a relation between an earlier and a
  later element of the displayed list: a completed task is never before an open one,
  and of two tasks with the same \<^verbatim>\<open>isCompleted\<close> the earlier one has the smaller (or
  the same) time value. \<open>number_le\<close> is \<^verbatim>\<open><=\<close> on numbers: false when either side is
  \<^verbatim>\<open>NaN\<close>.
\<close>

fun number_le :: "int option \<Rightarrow> int option \<Rightarrow> bool" where
  "number_le (Some x) (Some y) = (x \<le> y)"
| "number_le _ _ = False"

definition displayOrder :: "(string \<Rightarrow> int option) \<Rightarrow> Task \<Rightarrow> Task \<Rightarrow> bool" where
  "displayOrder getTime a b =
     ((isCompleted a \<longrightarrow> isCompleted b) \<and>
      (isCompleted a = isCompleted b \<longrightarrow>
         number_le (getTime (createdAt a)) (getTime (createdAt b))))"

section \<open>The list screen: state, requests and handlers\<close>

definition API_URL :: string where
  "API_URL = ''http://10.0.2.2:3000/api/tasks''"

text \<open>
  The calls of \<^verbatim>\<open>axios\<close> that the screen makes: \<^verbatim>\<open>axios.get(url)\<close>,
  \<^verbatim>\<open>axios.put(url, { is_completed: b })\<close> and \<^verbatim>\<open>axios.delete(url)\<close>. A call
  resolves with the response or rejects with an error (no connection, or a status
  outside 2xx).
\<close>

datatype axios_call =
  axios_get string
| axios_put string bool
| axios_delete string

datatype axios_error = NetworkError | BadStatus nat

fun url_of :: "axios_call \<Rightarrow> string" where
  "url_of (axios_get u) = u"
| "url_of (axios_put u b) = u"
| "url_of (axios_delete u) = u"

text \<open>
  The three error alerts (\<^verbatim>\<open>Alert.alert("Hata", ...)\<close>, each with its own message),
  the buttons of the confirmation dialog of \<^verbatim>\<open>handleDelete\<close> (cancel and delete),
  and the parameters of a route: \<^verbatim>\<open>{ taskId?: string } | undefined\<close>.
\<close>

datatype alert = FetchErrorAlert | ToggleErrorAlert | DeleteErrorAlert

datatype button = Iptal | Sil

datatype route_params = Undefined | Params "string option"

datatype effect =
  Http axios_call
| ConsoleError
| AlertShown alert
| ConfirmDialog
| Navigate string route_params

record HomeState =
  tasks :: "Task list"
  loading :: bool
  searchQuery :: js_string

definition initialState :: HomeState where
  "initialState = \<lparr>tasks = [], loading = False, searchQuery = []\<rparr>"

text \<open>
  \<^verbatim>\<open>fetchTasks\<close>: \<^verbatim>\<open>setLoading(true)\<close>, then the \<^verbatim>\<open>try\<close> block (the GET, and
  \<^verbatim>\<open>setTasks(response.data)\<close> when it resolves), the \<^verbatim>\<open>catch\<close> block (a console
  message and an alert) when it rejects, and \<^verbatim>\<open>finally\<close> \<^verbatim>\<open>setLoading(false)\<close>.
  The outcome of the GET is an argument; the result is what the function did, in
  order, and the state it leaves.
\<close>

definition fetchTasks :: "axios_error + Task list \<Rightarrow> HomeState \<Rightarrow> effect list \<times> HomeState" where
  "fetchTasks response s =
     (let s1 = s\<lparr>loading := True\<rparr>;
          (out, s2) =
            (case response of
               Inr data \<Rightarrow> ([Http (axios_get API_URL)], s1\<lparr>tasks := data\<rparr>)
             | Inl err \<Rightarrow>
                 ([Http (axios_get API_URL), ConsoleError, AlertShown FetchErrorAlert], s1))
      in (out, s2\<lparr>loading := False\<rparr>))"

text \<open>
  \<^verbatim>\<open>handleToggleComplete\<close>: the PUT to \<^verbatim>\<open>`${API_URL}/${task.id}`\<close> with the negated
  flag; when it resolves, \<^verbatim>\<open>fetchTasks()\<close>; when it rejects, an alert.
\<close>

definition handleToggleComplete ::
  "Task \<Rightarrow> axios_error + unit \<Rightarrow> axios_error + Task list \<Rightarrow> HomeState \<Rightarrow> effect list \<times> HomeState" where
  "handleToggleComplete task put_response get_response s =
     (let put = Http (axios_put (API_URL @ ''/'' @ task_id task) (\<not> isCompleted task))
      in case put_response of
           Inr ok \<Rightarrow> (let (out, s') = fetchTasks get_response s in (put # out, s'))
         | Inl err \<Rightarrow> ([put, AlertShown ToggleErrorAlert], s))"

text \<open>
  \<^verbatim>\<open>handleDelete\<close>: the confirmation dialog; only the \<^verbatim>\<open>onPress\<close> of its delete
  button does anything: the DELETE to \<^verbatim>\<open>`${API_URL}/${id}`\<close>, then
  \<^verbatim>\<open>fetchTasks()\<close> when it resolves, an alert when it rejects.
\<close>

definition handleDelete ::
  "string \<Rightarrow> button \<Rightarrow> axios_error + unit \<Rightarrow> axios_error + Task list \<Rightarrow> HomeState \<Rightarrow>
   effect list \<times> HomeState" where
  "handleDelete ident pressed delete_response get_response s =
     (case pressed of
        Iptal \<Rightarrow> ([ConfirmDialog], s)
      | Sil \<Rightarrow>
          (let del = Http (axios_delete (API_URL @ ''/'' @ ident))
           in case delete_response of
                Inr ok \<Rightarrow>
                  (let (out, s') = fetchTasks get_response s in (ConfirmDialog # del # out, s'))
              | Inl err \<Rightarrow> ([ConfirmDialog, del, AlertShown DeleteErrorAlert], s)))"

definition handleEdit :: "string \<Rightarrow> effect" where
  "handleEdit ident = Navigate ''add_edit'' (Params (Some ident))"

definition handleAdd :: effect where
  "handleAdd = Navigate ''add_edit'' Undefined"

text \<open>
  What can happen to the screen: it gains focus (\<^verbatim>\<open>useFocusEffect\<close> calls
  \<^verbatim>\<open>fetchTasks\<close>), the text of the search bar changes, a row's checkbox, edit or
  delete button is pressed (\<^verbatim>\<open>TodoItem\<close> passes \<^verbatim>\<open>item\<close> to
  \<^verbatim>\<open>onToggleComplete\<close> and \<^verbatim>\<open>item.id\<close> to \<^verbatim>\<open>onEdit\<close> and \<^verbatim>\<open>onDelete\<close>), or
  the add button is pressed. An event carries the outcomes of the requests it leads to.
  Events are handled one after another: the requests of an event are answered before
  the next event is taken.
\<close>

datatype event =
  Focus "axios_error + Task list"
| ChangeText js_string
| PressCheckbox Task "axios_error + unit" "axios_error + Task list"
| PressEdit Task
| PressDelete Task button "axios_error + unit" "axios_error + Task list"
| PressAdd

fun step :: "event \<Rightarrow> HomeState \<Rightarrow> effect list \<times> HomeState" where
  "step (Focus get_response) s = fetchTasks get_response s"
| "step (ChangeText text) s = ([], s\<lparr>searchQuery := text\<rparr>)"
| "step (PressCheckbox item put_response get_response) s =
     handleToggleComplete item put_response get_response s"
| "step (PressEdit item) s = ([handleEdit (task_id item)], s)"
| "step (PressDelete item pressed delete_response get_response) s =
     handleDelete (task_id item) pressed delete_response get_response s"
| "step PressAdd s = ([handleAdd], s)"

fun run :: "event list \<Rightarrow> HomeState \<Rightarrow> effect list \<times> HomeState" where
  "run [] s = ([], s)"
| "run (e # es) s =
     (let (out1, s1) = step e s; (out2, s2) = run es s1 in (out1 @ out2, s2))"

fun requests :: "effect list \<Rightarrow> axios_call list" where
  "requests [] = []"
| "requests (Http r # es) = r # requests es"
| "requests (e # es) = requests es"

text \<open>
  The identifiers of the rows whose checkbox or delete button is pressed in a sequence
  of events.
\<close>

fun pressed_ids :: "event list \<Rightarrow> string list" where
  "pressed_ids [] = []"
| "pressed_ids (PressCheckbox item put_response get_response # es) = task_id item # pressed_ids es"
| "pressed_ids (PressDelete item pressed delete_response get_response # es) =
     task_id item # pressed_ids es"
| "pressed_ids (e # es) = pressed_ids es"

text \<open>
  A request as a REST endpoint: its HTTP method with the shape of its URL, which is the
  collection (the base URL) or an item of it (the base URL, a slash and something
  more). A request to any other URL is a request to no endpoint of the API.
\<close>

datatype http_method = GET | POST | PUT | DELETE

datatype target = Collection | Item

fun method_of :: "axios_call \<Rightarrow> http_method" where
  "method_of (axios_get u) = GET"
| "method_of (axios_put u b) = PUT"
| "method_of (axios_delete u) = DELETE"

definition target_of :: "string \<Rightarrow> target option" where
  "target_of u =
     (if u = API_URL then Some Collection
      else if prefix (API_URL @ ''/'') u then Some Item
      else None)"

definition endpoint_of :: "axios_call \<Rightarrow> (http_method \<times> target) option" where
  "endpoint_of r = map_option (Pair (method_of r)) (target_of (url_of r))"

text \<open>
  Modelled from the spec: the endpoints of the task API. The add/edit screen
  (\<^verbatim>\<open>../screens/AddEditScreen\<close>, imported by \<^verbatim>\<open>AppNavigator.tsx\<close>) is not among
  the source files, and the list screen makes three kinds of call: it reads the
  collection, updates an item and deletes an item. The specification speaks of task
  CRUD operations through four REST endpoints; the fourth, creating a task, is taken to
  be the usual POST to the collection.
\<close>

definition rest_endpoints :: "(http_method \<times> target) list" where
  "rest_endpoints = [(POST, Collection), (GET, Collection), (PUT, Item), (DELETE, Item)]"

section \<open>Navigation (AppNavigator, App)\<close>

text \<open>
  The element trees that \<^verbatim>\<open>AppNavigator\<close> and \<^verbatim>\<open>App\<close> return. A
  \<^verbatim>\<open>Stack.Navigator\<close> has its \<^verbatim>\<open>initialRouteName\<close> and its \<^verbatim>\<open>Stack.Screen\<close>
  children, each with \<^verbatim>\<open>name\<close>, \<^verbatim>\<open>component\<close> and \<^verbatim>\<open>options.headerShown\<close>.
\<close>

datatype screen_component = HomeScreen | AddEditScreen

record screen =
  screen_name :: string
  component :: screen_component
  headerShown :: bool

datatype element =
  SafeAreaProvider "element list"
| NavigationContainer "element list"
| Stack_Navigator string "screen list"
| StatusBar string

definition AppNavigator :: element where
  "AppNavigator =
     NavigationContainer
       [Stack_Navigator ''home''
          [\<lparr>screen_name = ''home'', component = HomeScreen, headerShown = False\<rparr>,
           \<lparr>screen_name = ''add_edit'', component = AddEditScreen, headerShown = False\<rparr>]]"

definition App :: element where
  "App = SafeAreaProvider [AppNavigator, StatusBar ''light'']"

text \<open>
  The navigators of a tree, each as its initial route name and its screens, and the
  component that a navigator shows first: the one registered under the initial name.
\<close>

fun navigators :: "element \<Rightarrow> (string \<times> screen list) list" where
  "navigators (SafeAreaProvider children) = concat (map navigators children)"
| "navigators (NavigationContainer children) = concat (map navigators children)"
| "navigators (Stack_Navigator initialRouteName screens) = [(initialRouteName, screens)]"
| "navigators (StatusBar style) = []"

definition initial_component :: "string \<times> screen list \<Rightarrow> screen_component option" where
  "initial_component nav =
     map_of (map (\<lambda>sc. (screen_name sc, component sc)) (snd nav)) (fst nav)"

section \<open>Example data\<close>

text \<open>
  A text of Basic Latin letters as a JavaScript string, for the examples.
\<close>

definition ascii :: "string \<Rightarrow> js_string" where
  "ascii s = map of_char s"

text \<open>
  An instance of the date parser for the examples: it agrees with
  \<^verbatim>\<open>new Date(s).getTime()\<close> on the two ISO dates, and on the strings that are not
  dates (the empty string among them), which give \<^verbatim>\<open>NaN\<close>.
\<close>

definition ex_getTime :: "string \<Rightarrow> int option" where
  "ex_getTime s =
     (if s = ''2024-01-01T00:00:00.000Z'' then Some 1704067200000
      else if s = ''2024-03-01T00:00:00.000Z'' then Some 1709251200000
      else None)"

definition task_milk :: Task where
  "task_milk = \<lparr>task_id = ''1'', title = ascii ''Buy Milk'', description = None,
     dueDate = None, isCompleted = False, createdAt = ''2024-03-01T00:00:00.000Z''\<rparr>"

definition task_call :: Task where
  "task_call = \<lparr>task_id = ''2'', title = ascii ''Call Bob'',
     description = Some (ascii ''About the MILK run''),
     dueDate = None, isCompleted = False, createdAt = ''''\<rparr>"

definition task_rent :: Task where
  "task_rent = \<lparr>task_id = ''3'', title = ascii ''Pay rent'', description = None,
     dueDate = Some ''2024-02-01'', isCompleted = False,
     createdAt = ''2024-01-01T00:00:00.000Z''\<rparr>"

definition task_mail :: Task where
  "task_mail = \<lparr>task_id = ''4'', title = ascii ''Read mail'', description = None,
     dueDate = None, isCompleted = True, createdAt = ''2024-01-01T00:00:00.000Z''\<rparr>"





text \<open>
  A session of the list screen: it gains focus and fetches two tasks, the first is
  ticked, the second is deleted after confirmation, and the search text changes.
\<close>

definition ex_session :: "event list" where
  "ex_session =
     [Focus (Inr [task_milk, task_rent]),
      PressCheckbox task_milk (Inr ()) (Inr [task_milk\<lparr>isCompleted := True\<rparr>, task_rent]),
      PressDelete task_rent Sil (Inr ()) (Inr [task_milk\<lparr>isCompleted := True\<rparr>]),
      ChangeText (ascii ''milk'')]"

section \<open>Properties of filtering and sorting\<close>

subsection \<open>The filter\<close>




subsection \<open>The case tables\<close>









text \<open>
  A text without U+0130 is lower-cased code unit by code unit.
\<close>

lemma latin_toLowerCase_map:
  "0x130 \<notin> set s \<Longrightarrow> latin_toLowerCase s = map lower_unit s"
  by (induction s) (simp_all add: latin_toLowerCase_def lower_units_def)


subsection \<open>Lower-casing code unit by code unit, and containment up to case\<close>



text \<open>
  What the two recursive definitions say: the query stands in the text, position by
  position as the same letters.
\<close>

lemma prefix_up_to_case_iff:
  "prefix_up_to_case q s \<longleftrightarrow> (\<exists>u ss. s = u @ ss \<and> list_all2 same_letter q u)"
proof (induction q s rule: prefix_up_to_case.induct)
  case (1 s)
  then show ?case by simp
next
  case (2 c q)
  then show ?case by simp
next
  case (3 c q d s)
  show ?case
  proof
    assume "prefix_up_to_case (c # q) (d # s)"
    then have cd: "same_letter c d" and "prefix_up_to_case q s" by simp_all
    with 3 obtain u ss where "s = u @ ss" "list_all2 same_letter q u" by blast
    with cd have "d # s = (d # u) @ ss \<and> list_all2 same_letter (c # q) (d # u)" by simp
    then show "\<exists>u ss. d # s = u @ ss \<and> list_all2 same_letter (c # q) u" by blast
  next
    assume "\<exists>u ss. d # s = u @ ss \<and> list_all2 same_letter (c # q) u"
    then obtain u ss where u: "d # s = u @ ss" "list_all2 same_letter (c # q) u" by blast
    then obtain e u' where e: "u = e # u'" "same_letter c e" "list_all2 same_letter q u'"
      by (auto simp: list_all2_Cons1)
    with u have "e = d" "s = u' @ ss" by simp_all
    with e 3 show "prefix_up_to_case (c # q) (d # s)" by auto
  qed
qed

lemma contains_up_to_case_iff:
  "contains_up_to_case s q \<longleftrightarrow>
     (\<exists>ps u ss. s = ps @ u @ ss \<and> list_all2 same_letter q u)"
proof (induction s)
  case Nil
  then show ?case by (auto simp: list_all2_Nil2)
next
  case (Cons d s)
  show ?case
  proof
    assume "contains_up_to_case (d # s) q"
    then consider "prefix_up_to_case q (d # s)" | "contains_up_to_case s q" by auto
    then show "\<exists>ps u ss. d # s = ps @ u @ ss \<and> list_all2 same_letter q u"
    proof cases
      case 1
      then obtain u ss where "d # s = u @ ss" "list_all2 same_letter q u"
        unfolding prefix_up_to_case_iff by blast
      then have "d # s = [] @ u @ ss \<and> list_all2 same_letter q u" by simp
      then show ?thesis by blast
    next
      case 2
      with Cons obtain ps u ss where "s = ps @ u @ ss" "list_all2 same_letter q u" by blast
      then have "d # s = (d # ps) @ u @ ss \<and> list_all2 same_letter q u" by simp
      then show ?thesis by blast
    qed
  next
    assume "\<exists>ps u ss. d # s = ps @ u @ ss \<and> list_all2 same_letter q u"
    then obtain ps u ss where u: "d # s = ps @ u @ ss" "list_all2 same_letter q u" by blast
    show "contains_up_to_case (d # s) q"
    proof (cases ps)
      case Nil
      with u have "prefix_up_to_case q (d # s)"
        unfolding prefix_up_to_case_iff by auto
      then show ?thesis by simp
    next
      case (Cons p ps')
      with u have "s = ps' @ u @ ss" by simp
      with u Cons.IH have "contains_up_to_case s q" by blast
      then show ?thesis by simp
    qed
  qed
qed

subsection \<open>The sort keeps the elements\<close>

lemma mset_insert_sorted: "mset (insert_sorted f x ys) = add_mset x (mset ys)"
  by (induction ys) auto

lemma mset_array_sort: "mset (array_sort f xs) = mset xs"
  by (induction xs) (auto simp: mset_insert_sorted)

lemma set_array_sort: "set (array_sort f xs) = set xs"
  by (metis mset_array_sort set_mset_mset)

subsection \<open>The comparator\<close>

lemma sortCompare_same:
  "isCompleted a = isCompleted b \<Longrightarrow> getTime (createdAt a) = Some ta \<Longrightarrow>
   getTime (createdAt b) = Some tb \<Longrightarrow> sortCompare (compareTasks getTime) a b = ta - tb"
  by (simp add: sortCompare_def compareTasks_def)

lemma sortCompare_differ:
  "isCompleted a \<noteq> isCompleted b \<Longrightarrow>
   sortCompare (compareTasks getTime) a b = (if isCompleted a then 1 else - 1)"
  by (simp add: sortCompare_def compareTasks_def)

lemma compare_displayOrder:
  assumes "getTime (createdAt a) \<noteq> None" and "getTime (createdAt b) \<noteq> None"
  shows "sortCompare (compareTasks getTime) a b \<le> 0 \<longleftrightarrow> displayOrder getTime a b"
proof -
  from assms obtain ta tb where t: "getTime (createdAt a) = Some ta" "getTime (createdAt b) = Some tb"
    by blast
  show ?thesis
  proof (cases "isCompleted a = isCompleted b")
    case True
    then show ?thesis
      using t by (simp add: sortCompare_same [OF True t] displayOrder_def)
  next
    case False
    then show ?thesis
      by (simp add: sortCompare_differ [OF False] displayOrder_def)
  qed
qed

lemma displayOrder_total:
  assumes "getTime (createdAt a) \<noteq> None" and "getTime (createdAt b) \<noteq> None"
  shows "displayOrder getTime a b \<or> displayOrder getTime b a"
proof -
  from assms obtain ta tb where t: "getTime (createdAt a) = Some ta" "getTime (createdAt b) = Some tb"
    by blast
  have "ta \<le> tb \<or> tb \<le> ta" by linarith
  then show ?thesis
    unfolding displayOrder_def t by (cases "isCompleted a"; cases "isCompleted b"; simp)
qed

lemma number_le_trans: "number_le x y \<Longrightarrow> number_le y z \<Longrightarrow> number_le x z"
  by (cases x; cases y; cases z; simp)

lemma displayOrder_trans:
  assumes "displayOrder getTime a b" and "displayOrder getTime b c"
  shows "displayOrder getTime a c"
proof -
  have 1: "isCompleted a \<longrightarrow> isCompleted c"
    using assms by (simp add: displayOrder_def)
  have 2: "number_le (getTime (createdAt a)) (getTime (createdAt c))"
    if eq: "isCompleted a = isCompleted c"
  proof -
    have "isCompleted a = isCompleted b" "isCompleted b = isCompleted c"
      using assms eq unfolding displayOrder_def by blast+
    then have "number_le (getTime (createdAt a)) (getTime (createdAt b))"
      "number_le (getTime (createdAt b)) (getTime (createdAt c))"
      using assms unfolding displayOrder_def by blast+
    then show ?thesis by (rule number_le_trans)
  qed
  from 1 2 show ?thesis unfolding displayOrder_def by blast
qed

subsection \<open>The sort under a comparator that agrees with a preorder\<close>

lemma set_insert_sorted: "set (insert_sorted f x ys) = insert x (set ys)"
  by (induction ys) auto

lemma sorted_wrt_insert_sorted:
  assumes le: "\<And>a b. a \<in> A \<Longrightarrow> b \<in> A \<Longrightarrow> sortCompare f a b \<le> 0 \<longleftrightarrow> R a b"
    and total: "\<And>a b. a \<in> A \<Longrightarrow> b \<in> A \<Longrightarrow> R a b \<or> R b a"
    and trans: "\<And>a b c. a \<in> A \<Longrightarrow> b \<in> A \<Longrightarrow> c \<in> A \<Longrightarrow> R a b \<Longrightarrow> R b c \<Longrightarrow> R a c"
  shows "x \<in> A \<Longrightarrow> set ys \<subseteq> A \<Longrightarrow> sorted_wrt R ys \<Longrightarrow> sorted_wrt R (insert_sorted f x ys)"
proof (induction ys)
  case Nil
  then show ?case by simp
next
  case (Cons y ys)
  show ?case
  proof (cases "sortCompare f x y \<le> 0")
    case True
    from Cons.prems have xA: "x \<in> A" and yA: "y \<in> A" and ysA: "set ys \<subseteq> A"
      and yys: "\<forall>z\<in>set ys. R y z" and srt: "sorted_wrt R ys"
      by simp_all
    from True have xy: "R x y" using le [OF xA yA] by simp
    have "R x z" if "z \<in> set ys" for z
    proof -
      from that ysA have "z \<in> A" by blast
      moreover from that yys have "R y z" by blast
      ultimately show ?thesis using trans [OF xA yA _ xy] by blast
    qed
    with xy yys srt True show ?thesis by simp
  next
    case False
    from Cons.prems have xA: "x \<in> A" and yA: "y \<in> A" and ysA: "set ys \<subseteq> A"
      and yys: "\<forall>z\<in>set ys. R y z" and srt: "sorted_wrt R ys"
      by simp_all
    from False have "\<not> R x y" using le [OF xA yA] by simp
    then have yx: "R y x" using total [OF xA yA] by blast
    have "sorted_wrt R (insert_sorted f x ys)"
      using Cons.IH [OF xA ysA srt] .
    with yx yys False show ?thesis
      by (simp add: set_insert_sorted)
  qed
qed

lemma sorted_wrt_array_sort:
  assumes le: "\<And>a b. a \<in> A \<Longrightarrow> b \<in> A \<Longrightarrow> sortCompare f a b \<le> 0 \<longleftrightarrow> R a b"
    and total: "\<And>a b. a \<in> A \<Longrightarrow> b \<in> A \<Longrightarrow> R a b \<or> R b a"
    and trans: "\<And>a b c. a \<in> A \<Longrightarrow> b \<in> A \<Longrightarrow> c \<in> A \<Longrightarrow> R a b \<Longrightarrow> R b c \<Longrightarrow> R a c"
  shows "set xs \<subseteq> A \<Longrightarrow> sorted_wrt R (array_sort f xs)"
proof (induction xs)
  case Nil
  then show ?case by simp
next
  case (Cons x xs)
  then have srt: "sorted_wrt R (array_sort f xs)" by simp
  have xA: "x \<in> A" and sub: "set (array_sort f xs) \<subseteq> A"
    using Cons.prems by (simp_all add: set_array_sort)
  have "sorted_wrt R (insert_sorted f x (array_sort f xs))"
    by (rule sorted_wrt_insert_sorted [of A f R, OF le total trans xA sub srt])
  then show ?case by simp
qed

text \<open>
  Stability: for a comparator that agrees with a preorder \<open>R\<close> on the elements, the
  elements that are equivalent to a given one keep the order they had. Together with
  the sortedness and the multiset this fixes the result, so for such a comparator the
  model returns what every stable sort returns.
\<close>

lemma filter_insert_sorted_other:
  "\<not> P x \<Longrightarrow> filter P (insert_sorted f x ys) = filter P ys"
  by (induction ys) simp_all

lemma filter_insert_sorted_equivalent:
  assumes le: "\<And>a b. a \<in> A \<Longrightarrow> b \<in> A \<Longrightarrow> sortCompare f a b \<le> 0 \<longleftrightarrow> R a b"
    and trans: "\<And>a b c. a \<in> A \<Longrightarrow> b \<in> A \<Longrightarrow> c \<in> A \<Longrightarrow> R a b \<Longrightarrow> R b c \<Longrightarrow> R a c"
    and k: "k \<in> A" and x: "x \<in> A" and xk: "R x k" "R k x"
  shows "set ys \<subseteq> A \<Longrightarrow>
    filter (\<lambda>y. R y k \<and> R k y) (insert_sorted f x ys) = x # filter (\<lambda>y. R y k \<and> R k y) ys"
proof (induction ys)
  case Nil
  with xk show ?case by simp
next
  case (Cons y ys)
  then have yA: "y \<in> A" and ysA: "set ys \<subseteq> A" by simp_all
  show ?case
  proof (cases "sortCompare f x y \<le> 0")
    case True
    with xk show ?thesis by simp
  next
    case False
    then have nxy: "\<not> R x y" using le [OF x yA] by simp
    have "\<not> (R y k \<and> R k y)"
    proof
      assume "R y k \<and> R k y"
      then have "R k y" ..
      with xk(1) have "R x y" by (rule trans [OF x k yA])
      with nxy show False ..
    qed
    then have "filter (\<lambda>y. R y k \<and> R k y) (y # insert_sorted f x ys) =
        filter (\<lambda>y. R y k \<and> R k y) (insert_sorted f x ys)"
      and "filter (\<lambda>y. R y k \<and> R k y) (y # ys) = filter (\<lambda>y. R y k \<and> R k y) ys"
      by auto
    with False Cons.IH [OF ysA] show ?thesis by simp
  qed
qed

lemma array_sort_stable:
  assumes le: "\<And>a b. a \<in> A \<Longrightarrow> b \<in> A \<Longrightarrow> sortCompare f a b \<le> 0 \<longleftrightarrow> R a b"
    and trans: "\<And>a b c. a \<in> A \<Longrightarrow> b \<in> A \<Longrightarrow> c \<in> A \<Longrightarrow> R a b \<Longrightarrow> R b c \<Longrightarrow> R a c"
    and k: "k \<in> A"
  shows "set xs \<subseteq> A \<Longrightarrow>
    filter (\<lambda>y. R y k \<and> R k y) (array_sort f xs) = filter (\<lambda>y. R y k \<and> R k y) xs"
proof (induction xs)
  case Nil
  then show ?case by simp
next
  case (Cons x xs)
  then have xA: "x \<in> A" and xsA: "set xs \<subseteq> A" by simp_all
  then have sub: "set (array_sort f xs) \<subseteq> A" by (simp add: set_array_sort)
  note IH = Cons.IH [OF xsA]
  show ?case
  proof (cases "R x k \<and> R k x")
    case True
    then have "R x k" "R k x" by simp_all
    from filter_insert_sorted_equivalent [of A f R k x, OF le trans k xA this sub] IH True
    show ?thesis by simp
  next
    case False
    with IH show ?thesis by (simp add: filter_insert_sorted_other)
  qed
qed

subsection \<open>The displayed list\<close>




text \<open>
  Claim C7. For every fetched list and every query, the displayed list is a permutation
  of a sublist of the fetched list: there is a list that keeps some elements of the
  fetched list, in their order, and has the same elements as the displayed list, each as
  often. So no task is created, duplicated or changed.
\<close>

theorem filteredTasks_permutation_of_sublist:
  "\<exists>zs. subseq zs ts \<and> mset (filteredTasks toLowerCase getTime ts q) = mset zs"
proof (intro exI conjI)
  show "subseq (filter (matchesQuery toLowerCase q) ts) ts" by simp
  show "mset (filteredTasks toLowerCase getTime ts q) =
      mset (filter (matchesQuery toLowerCase q) ts)"
    by (simp add: filteredTasks_def mset_array_sort)
qed

text \<open>
  Where the order of the displayed list is as the comments of the comparator say: when
  the \<^verbatim>\<open>createdAt\<close> of every displayed task is a date that the engine parses, no
  completed task is before an open one, and tasks with the same \<^verbatim>\<open>isCompleted\<close>
  are in ascending order of their time values. (The comparator is then consistent, so
  this is the order of every engine.)
\<close>

lemma filteredTasks_order_when_dates_parse:
  assumes "\<forall>t \<in> set (filteredTasks toLowerCase getTime ts q). getTime (createdAt t) \<noteq> None"
  shows "sorted_wrt (displayOrder getTime) (filteredTasks toLowerCase getTime ts q)"
proof -
  let ?A = "{t. getTime (createdAt t) \<noteq> None}"
  from assms have sub: "set (filter (matchesQuery toLowerCase q) ts) \<subseteq> ?A"
    by (auto simp: filteredTasks_def set_array_sort)
  have "sorted_wrt (displayOrder getTime)
          (array_sort (compareTasks getTime) (filter (matchesQuery toLowerCase q) ts))"
  proof (rule sorted_wrt_array_sort [of ?A, OF _ _ _ sub])
    show "\<And>a b. a \<in> ?A \<Longrightarrow> b \<in> ?A \<Longrightarrow>
        (sortCompare (compareTasks getTime) a b \<le> 0) = displayOrder getTime a b"
      by (rule compare_displayOrder) blast+
    show "\<And>a b. a \<in> ?A \<Longrightarrow> b \<in> ?A \<Longrightarrow> displayOrder getTime a b \<or> displayOrder getTime b a"
      by (rule displayOrder_total) blast+
    show "\<And>a b c. a \<in> ?A \<Longrightarrow> b \<in> ?A \<Longrightarrow> c \<in> ?A \<Longrightarrow>
        displayOrder getTime a b \<Longrightarrow> displayOrder getTime b c \<Longrightarrow> displayOrder getTime a c"
      by (rule displayOrder_trans)
  qed
  then show ?thesis
    by (simp add: filteredTasks_def)
qed

text \<open>
  Claim C3. The displayed list is to show every open task before every completed one
  and, among tasks with the same \<^verbatim>\<open>isCompleted\<close>, the older task first, as the
  comments of the comparator say. The code does not do so on this input: three open
  tasks are fetched, created in March, at a \<^verbatim>\<open>createdAt\<close> that is not a date, and in
  January. The comparator gives \<^verbatim>\<open>NaN\<close> for the second task against either
  neighbour, which the sort reads as a tie, so a sort that compares neighbours finds
  nothing to move: the list is displayed as fetched, the task of March before the task of
  January, although both dates parse and the two tasks are both open.
\<close>

theorem filteredTasks_order_failing_input:
  "filteredTasks latin_toLowerCase ex_getTime [task_milk, task_call, task_rent] [] =
     [task_milk, task_call, task_rent] \<and>
   compareTasks ex_getTime task_call task_milk = None \<and>
   compareTasks ex_getTime task_rent task_call = None \<and>
   isCompleted task_milk = isCompleted task_rent \<and>
   ex_getTime (createdAt task_milk) = Some 1709251200000 \<and>
   ex_getTime (createdAt task_rent) = Some 1704067200000 \<and>
   \<not> number_le (ex_getTime (createdAt task_milk)) (ex_getTime (createdAt task_rent))"
proof -
  have 1: "filteredTasks latin_toLowerCase ex_getTime [task_milk, task_call, task_rent] [] =
     [task_milk, task_call, task_rent]"
    by code_simp
  have 2: "compareTasks ex_getTime task_call task_milk = None"
    by code_simp
  have 3: "compareTasks ex_getTime task_rent task_call = None"
    by code_simp
  have 4: "isCompleted task_milk = isCompleted task_rent"
    by (simp add: task_milk_def task_rent_def)
  have 5: "ex_getTime (createdAt task_milk) = Some 1709251200000"
    by (simp add: task_milk_def ex_getTime_def)
  have 6: "ex_getTime (createdAt task_rent) = Some 1704067200000"
    by (simp add: task_rent_def ex_getTime_def)
  from 5 6 have 7: "\<not> number_le (ex_getTime (createdAt task_milk)) (ex_getTime (createdAt task_rent))"
    by simp
  from 1 2 3 4 5 6 7 show ?thesis by simp
qed

section \<open>Properties of the handlers\<close>

lemma requests_append: "requests (xs @ ys) = requests xs @ requests ys"
  by (induction xs rule: requests.induct) simp_all

lemma fetchTasks_requests: "requests (fst (fetchTasks response s)) = [axios_get API_URL]"
  by (cases response) (simp_all add: fetchTasks_def)

lemma fetchTasks_tasks: "tasks (snd (fetchTasks (Inr data) s)) = data"
  by (simp add: fetchTasks_def)

lemma handleToggleComplete_requests:
  "requests (fst (handleToggleComplete task put_response get_response s)) =
     axios_put (API_URL @ ''/'' @ task_id task) (\<not> isCompleted task) #
     (case put_response of Inr ok \<Rightarrow> [axios_get API_URL] | Inl err \<Rightarrow> [])"
proof (cases put_response)
  case (Inl err)
  then show ?thesis by (simp add: handleToggleComplete_def)
next
  case (Inr ok)
  obtain out s' where f: "fetchTasks get_response s = (out, s')"
    by (cases "fetchTasks get_response s")
  then have "requests out = [axios_get API_URL]"
    using fetchTasks_requests [of get_response s] by simp
  with Inr f show ?thesis by (simp add: handleToggleComplete_def)
qed

lemma handleDelete_requests:
  "requests (fst (handleDelete ident pressed delete_response get_response s)) =
     (case pressed of
        Iptal \<Rightarrow> []
      | Sil \<Rightarrow> axios_delete (API_URL @ ''/'' @ ident) #
          (case delete_response of Inr ok \<Rightarrow> [axios_get API_URL] | Inl err \<Rightarrow> []))"
proof (cases pressed)
  case Iptal
  then show ?thesis by (simp add: handleDelete_def)
next
  case Sil
  show ?thesis
  proof (cases delete_response)
    case (Inl err)
    with Sil show ?thesis by (simp add: handleDelete_def)
  next
    case (Inr ok)
    obtain out s' where f: "fetchTasks get_response s = (out, s')"
      by (cases "fetchTasks get_response s")
    then have "requests out = [axios_get API_URL]"
      using fetchTasks_requests [of get_response s] by simp
    with Sil Inr f show ?thesis by (simp add: handleDelete_def)
  qed
qed

lemma step_request_cases:
  assumes "r \<in> set (requests (fst (step e s)))"
  shows "r = axios_get API_URL \<or>
     (\<exists>ident \<in> set (pressed_ids [e]). \<exists>b.
        r = axios_put (API_URL @ ''/'' @ ident) b \<or> r = axios_delete (API_URL @ ''/'' @ ident))"
proof (cases e)
  case (Focus get_response)
  with assms show ?thesis by (simp add: fetchTasks_requests)
next
  case (ChangeText q)
  with assms show ?thesis by simp
next
  case (PressCheckbox item put_response get_response)
  with assms show ?thesis
    by (cases put_response) (auto simp: handleToggleComplete_requests)
next
  case (PressEdit item)
  with assms show ?thesis by (simp add: handleEdit_def)
next
  case (PressDelete item pressed delete_response get_response)
  with assms show ?thesis
    by (cases pressed; cases delete_response) (auto simp: handleDelete_requests)
next
  case PressAdd
  with assms show ?thesis by (simp add: handleAdd_def)
qed

lemma pressed_ids_Cons: "set (pressed_ids (e # es)) = set (pressed_ids [e]) \<union> set (pressed_ids es)"
  by (cases e) simp_all

lemma run_Cons_requests:
  "requests (fst (run (e # es) s)) =
     requests (fst (step e s)) @ requests (fst (run es (snd (step e s))))"
  by (simp add: requests_append split: prod.splits)

lemma run_request_cases:
  "r \<in> set (requests (fst (run evs s))) \<Longrightarrow>
   r = axios_get API_URL \<or>
     (\<exists>ident \<in> set (pressed_ids evs). \<exists>b.
        r = axios_put (API_URL @ ''/'' @ ident) b \<or> r = axios_delete (API_URL @ ''/'' @ ident))"
proof (induction evs arbitrary: s)
  case Nil
  then show ?case by simp
next
  case (Cons e es)
  from Cons.prems have "r \<in> set (requests (fst (step e s))) \<or>
      r \<in> set (requests (fst (run es (snd (step e s)))))"
    unfolding run_Cons_requests by simp
  then show ?case
  proof
    assume "r \<in> set (requests (fst (step e s)))"
    from step_request_cases [OF this] show ?thesis
      unfolding pressed_ids_Cons [of e es] by blast
  next
    assume "r \<in> set (requests (fst (run es (snd (step e s)))))"
    from Cons.IH [OF this] show ?thesis
      unfolding pressed_ids_Cons [of e es] by blast
  qed
qed

lemma target_of_base: "target_of API_URL = Some Collection"
  by (simp add: target_of_def)

lemma target_of_item: "target_of (API_URL @ ''/'' @ ident) = Some Item"
proof -
  have "prefix (API_URL @ ''/'') ((API_URL @ ''/'') @ ident)"
    by (rule prefixI) simp
  then show ?thesis by (simp add: target_of_def)
qed

lemma target_of_item_Cons: "target_of (API_URL @ CHR ''/'' # ident) = Some Item"
  using target_of_item [of ident] by simp

text \<open>
  Claim C1. The networking of the program is calls to four REST endpoints: the task API
  has exactly four, all distinct, and every request that the list screen issues, in any
  sequence of events from any state, is a call to one of them. (The list screen calls
  three: it reads the collection, updates an item and deletes an item.)
\<close>

theorem requests_are_rest_endpoints:
  "distinct rest_endpoints \<and> length rest_endpoints = 4 \<and>
   (\<forall>r \<in> set (requests (fst (run evs s))).
      endpoint_of r \<in> Some ` set rest_endpoints \<and> endpoint_of r \<noteq> Some (POST, Collection))"
proof (intro conjI ballI)
  show "distinct rest_endpoints" by (simp add: rest_endpoints_def)
  show "length rest_endpoints = 4" by (simp add: rest_endpoints_def)
next
  fix r assume "r \<in> set (requests (fst (run evs s)))"
  from run_request_cases [OF this]
  consider "r = axios_get API_URL"
    | ident b where "r = axios_put (API_URL @ ''/'' @ ident) b"
    | ident where "r = axios_delete (API_URL @ ''/'' @ ident)"
    by blast
  then have "endpoint_of r \<in> {Some (GET, Collection), Some (PUT, Item), Some (DELETE, Item)}"
    by cases (simp_all add: endpoint_of_def target_of_base target_of_item_Cons)
  then show "endpoint_of r \<in> Some ` set rest_endpoints"
    and "endpoint_of r \<noteq> Some (POST, Collection)"
    by (auto simp: rest_endpoints_def)
qed

text \<open>An instance: the PUT of the example session is the call that updates an item.\<close>

theorem requests_are_rest_endpoints_witness:
  "axios_put ''http://10.0.2.2:3000/api/tasks/1'' True
     \<in> set (requests (fst (run ex_session initialState))) \<and>
   endpoint_of (axios_put ''http://10.0.2.2:3000/api/tasks/1'' True) = Some (PUT, Item) \<and>
   endpoint_of (axios_put ''http://10.0.2.2:3000/api/tasks/1'' True) \<in> Some ` set rest_endpoints"
proof -
  have 1: "axios_put ''http://10.0.2.2:3000/api/tasks/1'' True
     \<in> set (requests (fst (run ex_session initialState)))"
    by code_simp
  have 2: "endpoint_of (axios_put ''http://10.0.2.2:3000/api/tasks/1'' True) = Some (PUT, Item)"
    by code_simp
  from requests_are_rest_endpoints [of ex_session initialState] 1 2 show ?thesis
    by blast
qed

text \<open>
  Claim C5. Every request that the screen issues, in any sequence of events from any
  state, goes to the base URL \<open>http://10.0.2.2:3000/api/tasks\<close> or to the base URL
  followed by a slash and the identifier of a task whose row was pressed. No other URL
  is contacted.
\<close>

theorem requests_target_task_api:
  "r \<in> set (requests (fst (run evs s))) \<Longrightarrow>
   API_URL = ''http://10.0.2.2:3000/api/tasks'' \<and>
   (url_of r = API_URL \<or>
    (\<exists>ident \<in> set (pressed_ids evs). url_of r = API_URL @ ''/'' @ ident))"
proof
  show "API_URL = ''http://10.0.2.2:3000/api/tasks''" by (simp add: API_URL_def)
next
  assume "r \<in> set (requests (fst (run evs s)))"
  from run_request_cases [OF this]
  show "url_of r = API_URL \<or>
    (\<exists>ident \<in> set (pressed_ids evs). url_of r = API_URL @ ''/'' @ ident)"
    by (elim disjE bexE exE) auto
qed

text \<open>An instance: the DELETE of the example session goes to the URL of task \<open>3\<close>.\<close>

theorem requests_target_task_api_witness:
  "axios_delete ''http://10.0.2.2:3000/api/tasks/3''
     \<in> set (requests (fst (run ex_session initialState))) \<and>
   pressed_ids ex_session = [''1'', ''3''] \<and>
   (url_of (axios_delete ''http://10.0.2.2:3000/api/tasks/3'') = API_URL \<or>
    (\<exists>ident \<in> set (pressed_ids ex_session).
       url_of (axios_delete ''http://10.0.2.2:3000/api/tasks/3'') = API_URL @ ''/'' @ ident))"
proof -
  have 1: "axios_delete ''http://10.0.2.2:3000/api/tasks/3''
     \<in> set (requests (fst (run ex_session initialState)))"
    by code_simp
  have 2: "pressed_ids ex_session = [''1'', ''3'']"
    by code_simp
  from requests_target_task_api [OF 1] 1 2 show ?thesis
    by blast
qed

text \<open>
  Claim C6. Every focus of the list screen issues a GET of the collection, and the data
  of its response becomes the task state. Pressing a checkbox issues a PUT to the base
  URL extended with the identifier of that task; a confirmed delete issues a DELETE to
  the base URL extended with the identifier (a cancelled one issues nothing). When the
  PUT or the DELETE succeeds, the list is fetched again: a GET follows, and the state is
  the one that \<open>fetchTasks\<close> leaves; when it fails, no GET follows.
\<close>

theorem list_backed_by_api:
  "requests (fst (step (Focus get_response) s)) = [axios_get API_URL] \<and>
   tasks (snd (step (Focus (Inr data)) s)) = data \<and>
   requests (fst (step (PressCheckbox item (Inr ok) get_response) s)) =
     [axios_put (API_URL @ ''/'' @ task_id item) (\<not> isCompleted item), axios_get API_URL] \<and>
   requests (fst (step (PressCheckbox item (Inl err) get_response) s)) =
     [axios_put (API_URL @ ''/'' @ task_id item) (\<not> isCompleted item)] \<and>
   snd (step (PressCheckbox item (Inr ok) get_response) s) = snd (fetchTasks get_response s) \<and>
   requests (fst (step (PressDelete item Sil (Inr ok) get_response) s)) =
     [axios_delete (API_URL @ ''/'' @ task_id item), axios_get API_URL] \<and>
   requests (fst (step (PressDelete item Sil (Inl err) get_response) s)) =
     [axios_delete (API_URL @ ''/'' @ task_id item)] \<and>
   requests (fst (step (PressDelete item Iptal delete_response get_response) s)) = [] \<and>
   snd (step (PressDelete item Sil (Inr ok) get_response) s) = snd (fetchTasks get_response s)"
proof (intro conjI)
  show "requests (fst (step (Focus get_response) s)) = [axios_get API_URL]"
    by (simp add: fetchTasks_requests)
  show "tasks (snd (step (Focus (Inr data)) s)) = data"
    by (simp add: fetchTasks_tasks)
  show "requests (fst (step (PressCheckbox item (Inr ok) get_response) s)) =
     [axios_put (API_URL @ ''/'' @ task_id item) (\<not> isCompleted item), axios_get API_URL]"
    by (simp add: handleToggleComplete_requests)
  show "requests (fst (step (PressCheckbox item (Inl err) get_response) s)) =
     [axios_put (API_URL @ ''/'' @ task_id item) (\<not> isCompleted item)]"
    by (simp add: handleToggleComplete_requests)
  show "snd (step (PressCheckbox item (Inr ok) get_response) s) = snd (fetchTasks get_response s)"
    by (simp add: handleToggleComplete_def split: prod.splits)
  show "requests (fst (step (PressDelete item Sil (Inr ok) get_response) s)) =
     [axios_delete (API_URL @ ''/'' @ task_id item), axios_get API_URL]"
    by (simp add: handleDelete_requests)
  show "requests (fst (step (PressDelete item Sil (Inl err) get_response) s)) =
     [axios_delete (API_URL @ ''/'' @ task_id item)]"
    by (simp add: handleDelete_requests)
  show "requests (fst (step (PressDelete item Iptal delete_response get_response) s)) = []"
    by (simp add: handleDelete_requests)
  show "snd (step (PressDelete item Sil (Inr ok) get_response) s) = snd (fetchTasks get_response s)"
    by (simp add: handleDelete_def split: prod.splits)
qed

text \<open>
  Claim C8. When the GET of \<open>fetchTasks\<close> fails, the tasks are as before (the state
  changes in nothing but the loading flag), and beyond the request the function only
  logs the error and shows the alert. Whether the GET fails or succeeds, the loading
  flag is false at the end.
\<close>

theorem fetchTasks_failure:
  "snd (fetchTasks (Inl err) s) = s\<lparr>loading := False\<rparr> \<and>
   tasks (snd (fetchTasks (Inl err) s)) = tasks s \<and>
   fst (fetchTasks (Inl err) s) =
     [Http (axios_get API_URL), ConsoleError, AlertShown FetchErrorAlert] \<and>
   loading (snd (fetchTasks response s)) = False"
proof (intro conjI)
  show "snd (fetchTasks (Inl err) s) = s\<lparr>loading := False\<rparr>"
    by (simp add: fetchTasks_def)
  then show "tasks (snd (fetchTasks (Inl err) s)) = tasks s"
    by simp
  show "fst (fetchTasks (Inl err) s) =
     [Http (axios_get API_URL), ConsoleError, AlertShown FetchErrorAlert]"
    by (simp add: fetchTasks_def)
  show "loading (snd (fetchTasks response s)) = False"
    by (cases response) (simp_all add: fetchTasks_def)
qed

text \<open>
  Claim C9. Pressing edit on a row navigates to the route \<open>add_edit\<close> with exactly the
  identifier of that row's task as \<open>taskId\<close>; pressing the add button navigates to
  \<open>add_edit\<close> with \<^verbatim>\<open>undefined\<close> as parameters. Neither changes the state, and
  \<open>add_edit\<close> is a route of the navigator.
\<close>

theorem navigation_from_list:
  "step (PressEdit item) s = ([Navigate ''add_edit'' (Params (Some (task_id item)))], s) \<and>
   step PressAdd s = ([Navigate ''add_edit'' Undefined], s) \<and>
   ''add_edit'' \<in> set (map screen_name (concat (map snd (navigators App))))"
  by (simp add: handleEdit_def handleAdd_def App_def AppNavigator_def)

text \<open>
  Claim C4. The application has one navigation stack; its initial route is \<open>home\<close>;
  it registers exactly two screens: the list view (\<open>HomeScreen\<close>) as \<open>home\<close> and the
  add/edit view (\<open>AddEditScreen\<close>) as \<open>add_edit\<close>; so the list view is shown first.
\<close>

theorem two_screens_one_stack:
  "map fst (navigators App) = [''home''] \<and>
   map (map screen_name \<circ> snd) (navigators App) = [[''home'', ''add_edit'']] \<and>
   map (map component \<circ> snd) (navigators App) = [[HomeScreen, AddEditScreen]] \<and>
   map initial_component (navigators App) = [Some HomeScreen]"
  by (simp add: App_def AppNavigator_def initial_component_def)

end
